theory Spec2Isabelle
  imports Complex_Main "HOL-Library.AList" "HOL-Library.Multiset"
begin

section \<open>Text and character classes\<close>

text \<open>
  A Python \<open>str\<close> is modelled as a \<open>string\<close>, a list of \<open>char\<close>. A \<open>char\<close> of HOL
  has 256 values, so the model covers the texts whose code points are below 256; a
  \<open>char\<close> stands for the code point \<open>of_char c\<close>. The classes below are the ones the
  \<open>re\<close> module uses for a \<open>str\<close> pattern, cut down to that range.
\<close>

definition code :: "char \<Rightarrow> int" where
  "code c = of_char c"

definition is_digit :: "char \<Rightarrow> bool" where
  \<comment> \<open>\<open>\d\<close>: the decimal digits; below 256 these are \<open>0\<close> to \<open>9\<close>.\<close>
  "is_digit c = (let n = code c in 48 \<le> n \<and> n \<le> 57)"

definition is_space :: "char \<Rightarrow> bool" where
  \<comment> \<open>\<open>\s\<close>: tab to carriage return, the separators 28 to 31, space, NEL and
      the no-break space.\<close>
  "is_space c = (let n = code c in
     (9 \<le> n \<and> n \<le> 13) \<or> (28 \<le> n \<and> n \<le> 32) \<or> n = 133 \<or> n = 160)"

definition is_alnum :: "char \<Rightarrow> bool" where
  \<comment> \<open>\<open>str.isalnum\<close> on one character, below 256.\<close>
  "is_alnum c = (let n = code c in
     (48 \<le> n \<and> n \<le> 57) \<or> (65 \<le> n \<and> n \<le> 90) \<or> (97 \<le> n \<and> n \<le> 122)
     \<or> n = 170 \<or> n = 178 \<or> n = 179 \<or> n = 181 \<or> n = 185 \<or> n = 186
     \<or> (188 \<le> n \<and> n \<le> 190) \<or> (192 \<le> n \<and> n \<le> 214)
     \<or> (216 \<le> n \<and> n \<le> 246) \<or> 248 \<le> n)"

definition is_word :: "char \<Rightarrow> bool" where
  \<comment> \<open>\<open>\w\<close>: alphanumeric or the underscore.\<close>
  "is_word c = (is_alnum c \<or> c = CHR ''_'')"

definition py_lower :: "char \<Rightarrow> char" where
  \<comment> \<open>The simple lower-case mapping, below 256.\<close>
  "py_lower c = (let n = code c in
     if (65 \<le> n \<and> n \<le> 90) \<or> (192 \<le> n \<and> n \<le> 222 \<and> n \<noteq> 215)
     then char_of (n + 32) else c)"

definition py_upper :: "char \<Rightarrow> char" where
  \<comment> \<open>The inverse of \<open>py_lower\<close> on the characters it changes.\<close>
  "py_upper c = (let n = code c in
     if (97 \<le> n \<and> n \<le> 122) \<or> (224 \<le> n \<and> n \<le> 254 \<and> n \<noteq> 247)
     then char_of (n - 32) else c)"

section \<open>Regular expressions of the \<open>re\<close> module\<close>

text \<open>
  The constructs that \<open>DocumentInspector.PATTERNS\<close> uses. Groups only group:
  \<open>inspect_text\<close> reads \<open>match.group(0)\<close> and \<open>match.span()\<close>, never a captured group.
  Every quantifier of the patterns is greedy. \<open>Rep r lo (Some hi)\<close> is \<open>r{lo,hi}\<close> and
  \<open>Rep r lo None\<close> is \<open>r{lo,}\<close>.
\<close>

datatype citem = CChr char | CRange char char | CSpace

datatype regex =
    Eps
  | Lit char
  | In "citem list"
  | NotIn "citem list"
  | Digit
  | Bnd
  | Seq regex regex
  | Alt regex regex
  | Rep regex nat "nat option"

definition seq :: "regex list \<Rightarrow> regex" where
  "seq rs = foldr Seq rs Eps"

definition opt :: "regex \<Rightarrow> regex" where
  "opt r = Rep r 0 (Some 1)"

definition star :: "regex \<Rightarrow> regex" where
  "star r = Rep r 0 None"

definition plus :: "regex \<Rightarrow> regex" where
  "plus r = Rep r 1 None"

definition times :: "nat \<Rightarrow> regex \<Rightarrow> regex" where
  "times n r = Rep r n (Some n)"

definition lit_ci :: "char \<Rightarrow> char \<Rightarrow> bool" where
  \<comment> \<open>A literal under \<open>re.IGNORECASE\<close>: equal after lower-casing.\<close>
  "lit_ci p c = (py_lower c = py_lower p)"

definition in_range :: "char \<Rightarrow> char \<Rightarrow> char \<Rightarrow> bool" where
  "in_range a b c = (let n = code c in code a \<le> n \<and> n \<le> code b)"

fun citem_match :: "citem \<Rightarrow> char \<Rightarrow> bool" where
  \<comment> \<open>A class item under \<open>re.IGNORECASE\<close>: the character or its other case is in it.\<close>
  "citem_match (CChr p) c = lit_ci p c"
| "citem_match (CRange a b) c = (in_range a b (py_lower c) \<or> in_range a b (py_upper c))"
| "citem_match CSpace c = is_space c"

definition class_match :: "citem list \<Rightarrow> char \<Rightarrow> bool" where
  "class_match items c = list_ex (\<lambda>it. citem_match it c) items"

text \<open>
  A cursor is a position in the text under search: the index, whether the character
  before it is a word character (there is none before index 0), and the text from the
  index on, \<open>s[i:]\<close>.
\<close>

type_synonym cursor = "nat \<times> bool \<times> string"

definition start_cursor :: "string \<Rightarrow> cursor" where
  "start_cursor s = (0, False, s)"

fun advance :: "cursor \<Rightarrow> cursor" where
  "advance (i, w, c # cs) = (Suc i, is_word c, cs)"
| "advance (i, w, []) = (i, w, [])"

fun at_boundary :: "cursor \<Rightarrow> bool" where
  \<comment> \<open>\<open>\b\<close>: exactly one of the characters before and at the position is a word
      character; outside the text there is none.\<close>
  "at_boundary (i, w, []) = w"
| "at_boundary (i, w, c # cs) = (w \<noteq> is_word c)"

fun one_char :: "(char \<Rightarrow> bool) \<Rightarrow> cursor \<Rightarrow> cursor list" where
  "one_char P (i, w, []) = []"
| "one_char P (i, w, c # cs) = (if P c then [(Suc i, is_word c, cs)] else [])"

text \<open>
  \<open>iter body lo hi cur\<close>: the cursors at which a greedy repetition that starts at \<open>cur\<close>
  can end, with at least \<open>lo\<close> and at most \<open>hi\<close> more rounds of \<open>body\<close>, in the order
  the backtracking matcher tries them: one more round first, stopping here last.
\<close>

fun iter :: "(cursor \<Rightarrow> cursor list) \<Rightarrow> nat \<Rightarrow> nat \<Rightarrow> cursor \<Rightarrow> cursor list" where
  "iter body lo 0 cur = (if lo = 0 then [cur] else [])"
| "iter body lo (Suc hi) cur =
     concat (map (iter body (lo - 1) hi) (body cur)) @ (if lo = 0 then [cur] else [])"

text \<open>
  \<open>ends r cur\<close>: every cursor at which a match of \<open>r\<close> that starts at \<open>cur\<close> can end,
  in the order in which the backtracking matcher of \<open>re\<close> reaches them (left
  alternative first, longer repetition first). The match the module reports is the first
  one. An unbounded repetition is given as many rounds as characters are left: each
  round of a repetition in \<open>PATTERNS\<close> consumes a character, so no match needs more.
\<close>

primrec ends :: "regex \<Rightarrow> cursor \<Rightarrow> cursor list" where
  "ends Eps cur = [cur]"
| "ends (Lit p) cur = one_char (lit_ci p) cur"
| "ends (In items) cur = one_char (class_match items) cur"
| "ends (NotIn items) cur = one_char (\<lambda>c. \<not> class_match items c) cur"
| "ends Digit cur = one_char is_digit cur"
| "ends Bnd cur = (if at_boundary cur then [cur] else [])"
| "ends (Seq r1 r2) cur = concat (map (ends r2) (ends r1 cur))"
| "ends (Alt r1 r2) cur = ends r1 cur @ ends r2 cur"
| "ends (Rep r lo hi) cur =
     iter (ends r) lo (case hi of None \<Rightarrow> length (snd (snd cur)) | Some h \<Rightarrow> h) cur"

definition match_at :: "regex \<Rightarrow> cursor \<Rightarrow> bool \<Rightarrow> cursor option" where
  \<comment> \<open>The first match at the cursor; after an empty match the scanner asks for a
      match that is not empty at the same position (\<open>must_advance\<close>).\<close>
  "match_at r cur must_advance =
     (case filter (\<lambda>e. \<not> (must_advance \<and> fst e = fst cur)) (ends r cur) of
        [] \<Rightarrow> None
      | e # _ \<Rightarrow> Some e)"

text \<open>
  \<open>re.finditer\<close>: the spans of the matches from left to right, none overlapping
  another; the search goes on where the last match ended. A match that consumed
  nothing is followed by a search, at the same place, for one that does.
\<close>

function finditer_from :: "regex \<Rightarrow> cursor \<Rightarrow> bool \<Rightarrow> (nat \<times> nat) list" where
  "finditer_from r cur must_advance =
     (case match_at r cur must_advance of
        None \<Rightarrow> (case snd (snd cur) of [] \<Rightarrow> [] | _ # _ \<Rightarrow> finditer_from r (advance cur) False)
      | Some e \<Rightarrow>
          (fst cur, fst e) #
            (if length (snd (snd e)) < length (snd (snd cur)) then finditer_from r e False
             else if must_advance then []
             else finditer_from r cur True))"
  by pat_completeness auto
termination
  by (relation "measure (\<lambda>(r, cur, adv). 2 * length (snd (snd cur)) + (if adv then 0 else 1))")
     (auto split: list.splits)

declare finditer_from.simps [simp del]

definition finditer :: "regex \<Rightarrow> string \<Rightarrow> (nat \<times> nat) list" where
  "finditer r s = finditer_from r (start_cursor s) False"

section \<open>inspector.py: DocumentInspector\<close>

definition digit_block :: "nat \<Rightarrow> regex" where
  "digit_block n = times n Digit"

definition spaces :: regex where
  "spaces = star (In [CSpace])"

definition lits :: "string \<Rightarrow> regex" where
  "lits cs = seq (map Lit cs)"

definition cc_group :: regex where
  \<comment> \<open>\<^verbatim>\<open>(?:\d{4}[-\s]?)\<close>\<close>
  "cc_group = seq [digit_block 4, opt (In [CChr CHR ''-'', CSpace])]"

definition credit_card_re :: regex where
  \<comment> \<open>\<^verbatim>\<open>\b(?:\d{4}[-\s]?){3}\d{4}\b\<close>\<close>
  "credit_card_re = seq [Bnd, times 3 cc_group, digit_block 4, Bnd]"

definition ssn_re :: regex where
  \<comment> \<open>\<^verbatim>\<open>\b\d{3}-\d{2}-\d{4}\b\<close>\<close>
  "ssn_re =
     seq [Bnd, digit_block 3, Lit CHR ''-'', digit_block 2, Lit CHR ''-'', digit_block 4, Bnd]"

definition number_label :: regex where
  \<comment> \<open>\<^verbatim>\<open>(?:[Nn]umber|[Nn]o\.?|#)?\<close>\<close>
  "number_label =
     opt (Alt (seq [In [CChr CHR ''N'', CChr CHR ''n''], lits ''umber''])
         (Alt (seq [In [CChr CHR ''N'', CChr CHR ''n''], Lit CHR ''o'', opt (Lit CHR ''.'')])
              (Lit CHR ''#'')))"

definition account_number_re :: regex where
  \<comment> \<open>\<^verbatim>\<open>\b(?:[Aa]ccount\s*(?:[Nn]umber|[Nn]o\.?|#)?|[Aa][Cc][Cc][Tt]\s*#?)\s*:?\s*(\d{8,17})\b\<close>\<close>
  "account_number_re =
     seq [Bnd,
          Alt (seq [In [CChr CHR ''A'', CChr CHR ''a''], lits ''ccount'', spaces, number_label])
              (seq [In [CChr CHR ''A'', CChr CHR ''a''], In [CChr CHR ''C'', CChr CHR ''c''],
                    In [CChr CHR ''C'', CChr CHR ''c''], In [CChr CHR ''T'', CChr CHR ''t''],
                    spaces, opt (Lit CHR ''#'')]),
          spaces, opt (Lit CHR '':''), spaces,
          Rep Digit 8 (Some 17),
          Bnd]"

definition routing_number_re :: regex where
  \<comment> \<open>\<^verbatim>\<open>\b(?:[Rr]outing\s*(?:[Nn]umber|[Nn]o\.?|#)?|[Rr][Tt][Gg]\s*#?|[Rr]oute\s*:?)\s*:?\s*(\d{9})\b\<close>\<close>
  "routing_number_re =
     seq [Bnd,
          Alt (seq [In [CChr CHR ''R'', CChr CHR ''r''], lits ''outing'', spaces, number_label])
         (Alt (seq [In [CChr CHR ''R'', CChr CHR ''r''], In [CChr CHR ''T'', CChr CHR ''t''],
                    In [CChr CHR ''G'', CChr CHR ''g''], spaces, opt (Lit CHR ''#'')])
              (seq [In [CChr CHR ''R'', CChr CHR ''r''], lits ''oute'', spaces,
                    opt (Lit CHR '':'')])),
          spaces, opt (Lit CHR '':''), spaces,
          digit_block 9,
          Bnd]"

definition email_re :: regex where
  \<comment> \<open>\<^verbatim>\<open>\b[A-Za-z0-9._%+-]+@[A-Za-z0-9.-]+\.[A-Z|a-z]{2,}\b\<close>\<close>
  "email_re =
     seq [Bnd,
          plus (In [CRange CHR ''A'' CHR ''Z'', CRange CHR ''a'' CHR ''z'',
                    CRange CHR ''0'' CHR ''9'', CChr CHR ''.'', CChr CHR ''_'',
                    CChr CHR ''%'', CChr CHR ''+'', CChr CHR ''-'']),
          Lit CHR ''@'',
          plus (In [CRange CHR ''A'' CHR ''Z'', CRange CHR ''a'' CHR ''z'',
                    CRange CHR ''0'' CHR ''9'', CChr CHR ''.'', CChr CHR ''-'']),
          Lit CHR ''.'',
          Rep (In [CRange CHR ''A'' CHR ''Z'', CChr CHR ''|'', CRange CHR ''a'' CHR ''z''])
              2 None,
          Bnd]"

definition password_re :: regex where
  \<comment> \<open>\<^verbatim>\<open>\b(?:[Pp]assword|[Pp]ass|[Pp]wd)\s*:?\s*([^\s]+)\b\<close>\<close>
  "password_re =
     seq [Bnd,
          Alt (seq [In [CChr CHR ''P'', CChr CHR ''p''], lits ''assword''])
         (Alt (seq [In [CChr CHR ''P'', CChr CHR ''p''], lits ''ass''])
              (seq [In [CChr CHR ''P'', CChr CHR ''p''], lits ''wd''])),
          spaces, opt (Lit CHR '':''), spaces,
          plus (NotIn [CSpace]),
          Bnd]"

definition api_key_re :: regex where
  \<comment> \<open>\<^verbatim>\<open>\b(?:api[_-]?key|apikey|api[_-]?secret)\s*[:=]\s*['"]?([A-Za-z0-9_\-]{20,})['"]?\b\<close>\<close>
  "api_key_re =
     seq [Bnd,
          Alt (seq [lits ''api'', opt (In [CChr CHR ''_'', CChr CHR ''-'']), lits ''key''])
         (Alt (lits ''apikey'')
              (seq [lits ''api'', opt (In [CChr CHR ''_'', CChr CHR ''-'']), lits ''secret''])),
          spaces, In [CChr CHR '':'', CChr CHR ''=''], spaces,
          opt (In [CChr (CHR 0x27), CChr (CHR 0x22)]),
          Rep (In [CRange CHR ''A'' CHR ''Z'', CRange CHR ''a'' CHR ''z'',
                   CRange CHR ''0'' CHR ''9'', CChr CHR ''_'', CChr CHR ''-'']) 20 None,
          opt (In [CChr (CHR 0x27), CChr (CHR 0x22)]),
          Bnd]"

definition PATTERNS :: "(string \<times> regex) list" where
  \<comment> \<open>The dict keeps insertion order, which is the order \<open>inspect_text\<close> iterates in.\<close>
  "PATTERNS =
     [(''credit_card'', credit_card_re),
      (''ssn'', ssn_re),
      (''account_number'', account_number_re),
      (''routing_number'', routing_number_re),
      (''email'', email_re),
      (''password'', password_re),
      (''api_key'', api_key_re)]"

record finding =
  ftype :: string
  fvalue :: string
  fposition :: "nat \<times> nat"
  fseverity :: string

definition get_severity :: "string \<Rightarrow> string" where
  "get_severity pattern_type =
     (if pattern_type \<in> set [''credit_card'', ''ssn'', ''password'', ''api_key''] then ''HIGH''
      else if pattern_type \<in> set [''account_number'', ''routing_number''] then ''MEDIUM''
      else ''LOW'')"

definition slice :: "string \<Rightarrow> nat \<Rightarrow> nat \<Rightarrow> string" where
  \<comment> \<open>\<open>s[i:j]\<close> for indices that are not negative.\<close>
  "slice s i j = take (j - i) (drop i s)"

definition findings_of :: "string \<Rightarrow> regex \<Rightarrow> string \<Rightarrow> finding list" where
  \<comment> \<open>The inner loop of \<open>inspect_text\<close>: one finding per match of one pattern.\<close>
  "findings_of pattern_name pattern text =
     map (\<lambda>(i, j). \<lparr>ftype = pattern_name, fvalue = slice text i j, fposition = (i, j),
                     fseverity = get_severity pattern_name\<rparr>)
         (finditer pattern text)"

definition inspect_text :: "string \<Rightarrow> finding list" where
  "inspect_text text = concat (map (\<lambda>(n, p). findings_of n p text) PATTERNS)"

section \<open>phantom_redactor.py: PhantomRedactor\<close>

datatype error = KeyError string | TypeError

definition dict_get :: "('k \<times> 'v) list \<Rightarrow> 'k \<Rightarrow> 'v \<Rightarrow> 'v" where
  \<comment> \<open>\<open>d.get(k, default)\<close> on a dict kept as an association list in insertion order.\<close>
  "dict_get d k dflt = (case map_of d k of None \<Rightarrow> dflt | Some v \<Rightarrow> v)"

definition REDACTION_MARKERS :: "(string \<times> string) list" where
  "REDACTION_MARKERS =
     [(''credit_card'', ''[REDACTED-CREDIT-CARD]''),
      (''ssn'', ''[REDACTED-SSN]''),
      (''account_number'', ''[REDACTED-ACCOUNT]''),
      (''routing_number'', ''[REDACTED-ROUTING]''),
      (''email'', ''[REDACTED-EMAIL]''),
      (''password'', ''[REDACTED-PASSWORD]''),
      (''api_key'', ''[REDACTED-API-KEY]'')]"

record redaction =
  rtype :: string
  original :: string
  redacted :: string
  rposition :: "nat \<times> nat"
  rseverity :: string

definition sorted_reverse :: "finding list \<Rightarrow> finding list" where
  \<comment> \<open>\<open>sorted(findings, key=lambda x: x['position'][0], reverse=True)\<close>. The sort is
      stable, and with \<open>reverse=True\<close> equal keys keep their order: the list is
      reversed, sorted upwards and reversed again.\<close>
  "sorted_reverse findings = rev (sort_key (\<lambda>x. fst (fposition x)) (rev findings))"

definition redacted_value :: "bool \<Rightarrow> finding \<Rightarrow> string" where
  "redacted_value preserve_format f =
     (let original_value = fvalue f in
      if preserve_format then
        (if length original_value > 4
         then take 2 original_value @ replicate (length original_value - 2) CHR ''*''
         else replicate (length original_value) CHR ''*'')
      else dict_get REDACTION_MARKERS (ftype f) ''[REDACTED]'')"

definition log_entry :: "bool \<Rightarrow> finding \<Rightarrow> redaction" where
  \<comment> \<open>The dict that the loop of \<open>redact_text\<close> appends for one finding.\<close>
  "log_entry preserve_format f =
     \<lparr>rtype = ftype f, original = fvalue f, redacted = redacted_value preserve_format f,
      rposition = fposition f, rseverity = fseverity f\<rparr>"

fun redact_loop :: "bool \<Rightarrow> finding list \<Rightarrow> string \<Rightarrow> redaction list \<Rightarrow> string \<times> redaction list"
where
  "redact_loop preserve_format [] redacted_text rlog = (redacted_text, rlog)"
| "redact_loop preserve_format (f # fs) redacted_text rlog =
     (let (start, end) = fposition f;
          rv = redacted_value preserve_format f
      in redact_loop preserve_format fs
           (take start redacted_text @ rv @ drop end redacted_text)
           (rlog @ [log_entry preserve_format f]))"

definition redact_text :: "string \<Rightarrow> bool \<Rightarrow> string \<times> redaction list" where
  "redact_text text preserve_format =
     redact_loop preserve_format (sorted_reverse (inspect_text text)) text []"

record summary =
  total_redactions :: int
  by_type :: "(string \<times> int) list"
  by_severity :: "(string \<times> int) list"

fun summary_loop :: "redaction list \<Rightarrow> summary \<Rightarrow> error + summary" where
  "summary_loop [] sm = Inr sm"
| "summary_loop (r # rs) sm =
     (let sm1 = sm\<lparr>by_type :=
                  AList.update (rtype r) (dict_get (by_type sm) (rtype r) 0 + 1) (by_type sm)\<rparr>
      in case map_of (by_severity sm1) (rseverity r) of
           None \<Rightarrow> Inl (KeyError (rseverity r))
         | Some n \<Rightarrow>
             summary_loop rs
               (sm1\<lparr>by_severity := AList.update (rseverity r) (n + 1) (by_severity sm1)\<rparr>))"

definition create_summary :: "redaction list \<Rightarrow> error + summary" where
  "create_summary redaction_log =
     summary_loop redaction_log
       \<lparr>total_redactions = int (length redaction_log),
        by_type = [],
        by_severity = [(''HIGH'', 0), (''MEDIUM'', 0), (''LOW'', 0)]\<rparr>"

record redaction_result =
  rr_original :: string
  rr_redacted :: string
  redaction_count :: int
  redaction_log :: "redaction list"
  rr_summary :: summary

definition redact_document :: "string \<Rightarrow> error + redaction_result" where
  "redact_document content =
     (let (redacted_text, rlog) = redact_text content True
      in case create_summary rlog of
           Inl e \<Rightarrow> Inl e
         | Inr sm \<Rightarrow>
             Inr \<lparr>rr_original = content, rr_redacted = redacted_text,
                  redaction_count = int (length rlog), redaction_log = rlog,
                  rr_summary = sm\<rparr>)"

definition create_safe_version :: "string \<Rightarrow> string" where
  "create_safe_version content = fst (redact_text content False)"

section \<open>archestra.py: ArchestraInterceptor\<close>

text \<open>
  The values stored in the \<open>data\<close> dict of a trace event. Times are the floats that
  \<open>time.time()\<close> returns, taken as real numbers.
\<close>

datatype pyval = PInt int | PFloat real | PStr string | PSummary summary | PLog "redaction list"

type_synonym pydict = "(string \<times> pyval) list"

record event =
  etype :: string
  edescription :: string
  edata :: pydict
  etimestamp :: real

text \<open>
  A trace dict. The keys \<open>end_time\<close> and \<open>duration\<close> are absent (\<open>None\<close>) until
  \<open>_complete_trace\<close> sets them.
\<close>

record trace =
  trace_id :: string
  start_time :: real
  events :: "event list"
  status :: string
  end_time :: "real option"
  duration :: "real option"

text \<open>
  The interceptor object. \<open>interception_count\<close> starts at 0 and is only ever
  incremented. \<open>clock_reads\<close> is not a field of the class: it counts the calls of
  \<open>time.time()\<close> made so far, and the \<open>k\<close>-th call returns \<open>clk k\<close> for a clock
  \<open>clk\<close> that the environment supplies.
\<close>

record interceptor =
  trace_log :: "trace list"
  interception_count :: nat
  clock_reads :: nat

definition init :: interceptor where
  "init = \<lparr>trace_log = [], interception_count = 0, clock_reads = 0\<rparr>"

definition time_time :: "(nat \<Rightarrow> real) \<Rightarrow> interceptor \<Rightarrow> real \<times> interceptor" where
  "time_time clk s = (clk (clock_reads s), s\<lparr>clock_reads := Suc (clock_reads s)\<rparr>)"

fun digits :: "nat \<Rightarrow> string" where
  "digits n = (if n < 10 then [char_of (48 + n)]
               else digits (n div 10) @ [char_of (48 + n mod 10)])"

declare digits.simps [simp del]

definition trace_id_fmt :: "nat \<Rightarrow> string" where
  \<comment> \<open>\<^verbatim>\<open>f"TRACE-{n:04d}"\<close>: the decimal digits, padded with zeros on the left to
      four characters.\<close>
  "trace_id_fmt n = ''TRACE-'' @ replicate (4 - length (digits n)) CHR ''0'' @ digits n"

definition start_trace :: "(nat \<Rightarrow> real) \<Rightarrow> interceptor \<Rightarrow> string \<times> interceptor" where
  "start_trace clk s =
     (let s1 = s\<lparr>interception_count := Suc (interception_count s)\<rparr>;
          tid = trace_id_fmt (interception_count s1);
          (t, s2) = time_time clk s1
      in (tid,
          s2\<lparr>trace_log := trace_log s2 @
               [\<lparr>trace_id = tid, start_time = t, events = [], status = ''in_progress'',
                 end_time = None, duration = None\<rparr>]\<rparr>))"

fun update_first :: "string \<Rightarrow> (trace \<Rightarrow> trace) \<Rightarrow> trace list \<Rightarrow> trace list" where
  \<comment> \<open>\<open>for trace in self.trace_log: if trace['trace_id'] == trace_id: ...; break\<close>\<close>
  "update_first tid f [] = []"
| "update_first tid f (t # ts) =
     (if trace_id t = tid then f t # ts else t # update_first tid f ts)"

definition log_trace ::
  "(nat \<Rightarrow> real) \<Rightarrow> string \<Rightarrow> string \<Rightarrow> string \<Rightarrow> pydict \<Rightarrow> interceptor \<Rightarrow> interceptor" where
  "log_trace clk tid event_type description dat s =
     (if list_ex (\<lambda>t. trace_id t = tid) (trace_log s) then
        (let (now, s1) = time_time clk s
         in s1\<lparr>trace_log :=
                update_first tid
                  (\<lambda>t. t\<lparr>events := events t @
                          [\<lparr>etype = event_type, edescription = description, edata = dat,
                            etimestamp = now\<rparr>]\<rparr>)
                  (trace_log s1)\<rparr>)
      else s)"

definition complete_trace :: "(nat \<Rightarrow> real) \<Rightarrow> string \<Rightarrow> interceptor \<Rightarrow> interceptor" where
  "complete_trace clk tid s =
     (if list_ex (\<lambda>t. trace_id t = tid) (trace_log s) then
        (let (now, s1) = time_time clk s
         in s1\<lparr>trace_log :=
                update_first tid
                  (\<lambda>t. t\<lparr>status := ''completed'', end_time := Some now,
                          duration := Some (now - start_time t)\<rparr>)
                  (trace_log s1)\<rparr>)
      else s)"

definition preview :: "string \<Rightarrow> string" where
  \<comment> \<open>\<open>content[:100] + '...' if len(content) > 100 else content\<close>\<close>
  "preview content = (if length content > 100 then take 100 content @ ''...'' else content)"

record step =
  step_no :: int
  step_name :: string
  step_description :: string
  step_status :: string
  step_data :: pydict
  step_timestamp :: real

record trace_result =
  res_trace_id :: string
  original_content :: string
  redacted_content :: string
  safe_data :: string
  redaction_summary :: summary
  redaction_details :: "redaction list"
  trace_steps :: "step list"
  interception_successful :: bool

definition process_with_trace ::
  "(nat \<Rightarrow> real) \<Rightarrow> string \<Rightarrow> interceptor \<Rightarrow> (error + trace_result) \<times> interceptor" where
  "process_with_trace clk content s =
     (let (tid, s0) = start_trace clk s;
          data1 = [(''content_preview'', PStr (preview content)),
                   (''length'', PInt (int (length content)))];
          (t1, s1) = time_time clk s0;
          step1 = \<lparr>step_no = 1, step_name = ''Agent Reads Document'',
                   step_description = ''Agent attempts to read the uploaded document'',
                   step_status = ''completed'', step_data = data1, step_timestamp = t1\<rparr>;
          s2 = log_trace clk tid ''AGENT_READ'' (step_description step1) (step_data step1) s1;
          data2 = [(''action'', PStr ''INTERCEPT''),
                   (''reason'', PStr ''Automatic security scan triggered'')];
          (t2, s3) = time_time clk s2;
          step2 = \<lparr>step_no = 2, step_name = ''Archestra Intercepts'',
                   step_description = ''Archestra middleware intercepts the read operation'',
                   step_status = ''completed'', step_data = data2, step_timestamp = t2\<rparr>;
          s4 = log_trace clk tid ''ARCHESTRA_INTERCEPT'' (step_description step2)
                 (step_data step2) s3
      in case redact_document content of
           Inl e \<Rightarrow> (Inl e, s4)
         | Inr rr \<Rightarrow>
            (let data3 = [(''redactions_made'', PInt (redaction_count rr)),
                          (''summary'', PSummary (rr_summary rr)),
                          (''redaction_log'', PLog (redaction_log rr))];
                 (t3, s5) = time_time clk s4;
                 step3 = \<lparr>step_no = 3, step_name = ''Phantom Redacts'',
                          step_description =
                            ''Phantom automatically redacts sensitive information'',
                          step_status = ''completed'', step_data = data3,
                          step_timestamp = t3\<rparr>;
                 s6 = log_trace clk tid ''PHANTOM_REDACT'' (step_description step3)
                        (step_data step3) s5;
                 data4 = [(''safe_content_preview'', PStr (preview (rr_redacted rr))),
                          (''length'', PInt (int (length (rr_redacted rr))))];
                 (t4, s7) = time_time clk s6;
                 step4 = \<lparr>step_no = 4, step_name = ''Agent Sees Safe Data'',
                          step_description =
                            ''Agent receives only the sanitized, safe version'',
                          step_status = ''completed'', step_data = data4,
                          step_timestamp = t4\<rparr>;
                 s8 = log_trace clk tid ''SAFE_DATA_DELIVERED'' (step_description step4)
                        (step_data step4) s7;
                 s9 = complete_trace clk tid s8
             in (Inr \<lparr>res_trace_id = tid, original_content = content,
                      redacted_content = rr_redacted rr, safe_data = rr_redacted rr,
                      redaction_summary = rr_summary rr,
                      redaction_details = redaction_log rr,
                      trace_steps = [step1, step2, step3, step4],
                      interception_successful = True\<rparr>, s9)))"

text \<open>
  \<open>intercept clk func\<close> is the wrapper that the decorator returns. The wrapped function
  takes the positional and the keyword arguments, modelled as strings (the content is
  one), and returns a value or raises (\<open>Inl\<close>); it does not touch the interceptor.
  The wrapper ends in one of three ways.
\<close>

datatype ('e, 'r) outcome = Raised error | FuncRaised 'e | Returned 'r

definition intercept ::
  "(nat \<Rightarrow> real) \<Rightarrow> (string list \<Rightarrow> (string \<times> string) list \<Rightarrow> 'e + 'r) \<Rightarrow>
   string list \<Rightarrow> (string \<times> string) list \<Rightarrow> interceptor \<Rightarrow> ('e, 'r) outcome \<times> interceptor"
where
  "intercept clk func args kwargs s =
     (let (tid, s0) = start_trace clk s;
          content = (case args of a # _ \<Rightarrow> a | [] \<Rightarrow> dict_get kwargs ''content'' []);
          (t1, s1) = time_time clk s0;
          s2 = log_trace clk tid ''AGENT_READ'' ''Agent attempting to read document''
                 [(''content_length'', PInt (int (length content))), (''timestamp'', PFloat t1)] s1;
          (t2, s3) = time_time clk s2;
          s4 = log_trace clk tid ''ARCHESTRA_INTERCEPT''
                 ''Archestra intercepted the read operation''
                 [(''interception_count'', PInt (int (interception_count s2))),
                  (''timestamp'', PFloat t2)] s3
      in case redact_document content of
           Inl e \<Rightarrow> (Raised e, s4)
         | Inr rr \<Rightarrow>
            (let (t3, s5) = time_time clk s4;
                 s6 = log_trace clk tid ''PHANTOM_REDACT'' ''Phantom redacted sensitive data''
                        [(''redactions'', PInt (redaction_count rr)),
                         (''summary'', PSummary (rr_summary rr)),
                         (''timestamp'', PFloat t3)] s5;
                 safe_content = rr_redacted rr;
                 (t4, s7) = time_time clk s6;
                 s8 = log_trace clk tid ''SAFE_DATA_DELIVERED'' ''Agent received sanitized data''
                        [(''safe_content_length'', PInt (int (length safe_content))),
                         (''timestamp'', PFloat t4)] s7;
                 (args', kwargs') =
                    (case args of
                       _ # rest \<Rightarrow> (safe_content # rest, kwargs)
                     | [] \<Rightarrow> ([], AList.update ''content'' safe_content kwargs))
             in case func args' kwargs' of
                  Inl e \<Rightarrow> (FuncRaised e, s8)
                | Inr result \<Rightarrow> (Returned result, complete_trace clk tid s8)))"

definition py_slice_from :: "'a list \<Rightarrow> int \<Rightarrow> 'a list" where
  \<comment> \<open>\<open>xs[k:]\<close>: a negative \<open>k\<close> counts from the end, and the start is clamped to
      the list.\<close>
  "py_slice_from xs k =
     (if k < 0 then drop (nat (int (length xs) + k)) xs else drop (nat k) xs)"

definition get_trace_history :: "interceptor \<Rightarrow> int \<Rightarrow> trace list" where
  "get_trace_history s limit = py_slice_from (trace_log s) (- limit)"


record statistics =
  total_interceptions :: nat
  stat_total_redactions :: int
  average_duration :: real
  traces_completed :: nat

fun event_redactions :: "event list \<Rightarrow> int \<Rightarrow> error + int" where
  \<comment> \<open>The inner loop of \<open>get_statistics\<close>. The program stores only ints under
      \<open>redactions\<close>; any other value there is taken as a \<open>TypeError\<close> of the sum.\<close>
  "event_redactions [] acc = Inr acc"
| "event_redactions (e # es) acc =
     (if etype e = ''PHANTOM_REDACT'' then
        (case dict_get (edata e) ''redactions'' (PInt 0) of
           PInt n \<Rightarrow> event_redactions es (acc + n)
         | _ \<Rightarrow> Inl TypeError)
      else event_redactions es acc)"

fun stats_loop :: "trace list \<Rightarrow> int \<Rightarrow> real \<Rightarrow> error + int \<times> real" where
  "stats_loop [] total_red total_dur = Inr (total_red, total_dur)"
| "stats_loop (t # ts) total_red total_dur =
     (if status t = ''completed'' then
        (case event_redactions (events t) total_red of
           Inl e \<Rightarrow> Inl e
         | Inr total_red' \<Rightarrow>
             stats_loop ts total_red'
               (total_dur + (case duration t of None \<Rightarrow> 0 | Some d \<Rightarrow> d)))
      else stats_loop ts total_red total_dur)"

definition get_statistics :: "interceptor \<Rightarrow> error + statistics" where
  "get_statistics s =
     (case stats_loop (trace_log s) 0 0 of
        Inl e \<Rightarrow> Inl e
      | Inr (total_red, total_dur) \<Rightarrow>
          Inr \<lparr>total_interceptions = interception_count s,
               stat_total_redactions = total_red,
               average_duration =
                 (if trace_log s \<noteq> [] then total_dur / real (length (trace_log s)) else 0),
               traces_completed = length (filter (\<lambda>t. status t = ''completed'') (trace_log s))\<rparr>)"

section \<open>Callers and vocabulary of the properties\<close>

text \<open>
  \<open>run clk contents s\<close>: sequential calls of \<open>process_with_trace\<close>, one per element of
  \<open>contents\<close>, on one interceptor; it returns the results in call order and the final
  state.
\<close>

fun run :: "(nat \<Rightarrow> real) \<Rightarrow> string list \<Rightarrow> interceptor \<Rightarrow>
            (error + trace_result) list \<times> interceptor" where
  "run clk [] s = ([], s)"
| "run clk (c # cs) s =
     (let (r, s1) = process_with_trace clk c s;
          (rs, s2) = run clk cs s1
      in (r # rs, s2))"

definition result_ids :: "(error + trace_result) list \<Rightarrow> string list" where
  \<comment> \<open>The trace ids of the calls that returned.\<close>
  "result_ids rs = concat (map (\<lambda>r. case r of Inl _ \<Rightarrow> [] | Inr x \<Rightarrow> [res_trace_id x]) rs)"

definition undigits :: "string \<Rightarrow> nat" where
  \<comment> \<open>The number that a string of decimal digits denotes.\<close>
  "undigits cs = foldl (\<lambda>a c. 10 * a + (of_char c - 48)) 0 cs"

definition trace_seq_no :: "string \<Rightarrow> nat" where
  \<comment> \<open>The sequence number in a trace id: what follows \<open>TRACE-\<close>.\<close>
  "trace_seq_no tid = undigits (drop 6 tid)"

definition ids_in_order :: "interceptor \<Rightarrow> bool" where
  \<comment> \<open>The state of an interceptor between calls: the log holds the traces
      number 1 to \<open>interception_count\<close>, in this order.\<close>
  "ids_in_order s =
     (map trace_id (trace_log s) = map trace_id_fmt [1..<Suc (interception_count s)])"

definition stats_safe :: "interceptor \<Rightarrow> bool" where
  \<comment> \<open>No event of the log makes the sum of \<open>get_statistics\<close> fail or grow.\<close>
  "stats_safe s = (\<forall>t \<in> set (trace_log s). \<forall>acc. event_redactions (events t) acc = Inr acc)"

definition reaches :: "cursor \<Rightarrow> cursor \<Rightarrow> bool" where
  \<comment> \<open>\<open>e\<close> is \<open>cur\<close> moved on by some characters of the text.\<close>
  "reaches cur e = (\<exists>k \<le> length (snd (snd cur)). e = (advance ^^ k) cur)"


definition cc_block :: "string \<Rightarrow> bool" where
  \<comment> \<open>A block of four digits.\<close>
  "cc_block b = (length b = 4 \<and> list_all is_digit b)"

definition cc_sep :: "string \<Rightarrow> bool" where
  \<comment> \<open>Nothing, or one dash, or one whitespace character.\<close>
  "cc_sep sp = (case sp of [] \<Rightarrow> True | [c] \<Rightarrow> c = CHR ''-'' \<or> is_space c | _ \<Rightarrow> False)"

section \<open>Properties of the inspector\<close>

lemma digit_is_word: "is_digit c \<Longrightarrow> is_word c"
  by (simp add: is_digit_def is_word_def is_alnum_def Let_def)

lemma sep_matches: "c = CHR ''-'' \<or> is_space c \<Longrightarrow> class_match [CChr CHR ''-'', CSpace] c"
  by (auto simp: class_match_def lit_ci_def)

lemma digit_not_sep: "is_digit c \<Longrightarrow> \<not> class_match [CChr CHR ''-'', CSpace] c"
  by (auto simp: class_match_def lit_ci_def is_digit_def is_space_def py_lower_def code_def Let_def)

lemma ends_digit_block4:
  "is_digit a \<Longrightarrow> is_digit b \<Longrightarrow> is_digit c \<Longrightarrow> is_digit d \<Longrightarrow>
   ends (digit_block 4) (i, w, a # b # c # d # rest) = [(i + 4, True, rest)]"
  by (simp add: digit_block_def times_def eval_nat_numeral digit_is_word)

lemma cc_block_ends:
  assumes "cc_block b"
  shows "ends (digit_block 4) (i, w, b @ rest) = [(i + 4, True, rest)]"
proof -
  from assms obtain a1 a2 a3 a4 where b: "b = [a1, a2, a3, a4]"
    by (auto simp: cc_block_def eval_nat_numeral length_Suc_conv)
  with assms show ?thesis
    by (simp add: cc_block_def ends_digit_block4)
qed

lemma ends_opt_sep_absent:
  "rest = [] \<or> is_digit (hd rest) \<Longrightarrow>
   ends (opt (In [CChr CHR ''-'', CSpace])) (i, w, rest) = [(i, w, rest)]"
  by (cases rest) (auto simp: opt_def digit_not_sep)

lemma ends_opt_sep_present:
  "c = CHR ''-'' \<or> is_space c \<Longrightarrow>
   ends (opt (In [CChr CHR ''-'', CSpace])) (i, w, c # rest) =
     [(Suc i, is_word c, rest), (i, w, c # rest)]"
  by (simp add: opt_def sep_matches)

lemma cc_group_first:
  assumes "cc_block b" and "cc_sep sp" and "rest = [] \<or> is_digit (hd rest)"
  shows "\<exists>w' es. ends cc_group (i, w, b @ sp @ rest) = (i + 4 + length sp, w', rest) # es"
proof (cases sp)
  case Nil
  with assms show ?thesis
    by (auto simp: cc_group_def seq_def cc_block_ends ends_opt_sep_absent)
next
  case (Cons c cs)
  with assms(2) have sp: "sp = [c]" and c: "c = CHR ''-'' \<or> is_space c"
    by (auto simp: cc_sep_def split: list.splits)
  with assms(1) show ?thesis
    by (simp add: cc_group_def seq_def cc_block_ends ends_opt_sep_present)
qed

lemma cc_block_hd: "cc_block b \<Longrightarrow> is_digit (hd (b @ rest))"
  by (cases b) (auto simp: cc_block_def)

lemma three_groups_first:
  assumes "cc_block b1" "cc_sep s1" "cc_block b2" "cc_sep s2" "cc_block b3" "cc_sep s3"
    and "rest = [] \<or> is_digit (hd rest)"
  shows "\<exists>w' es. ends (times 3 cc_group) (i, w, b1 @ s1 @ b2 @ s2 @ b3 @ s3 @ rest) =
           (i + 12 + length s1 + length s2 + length s3, w', rest) # es"
proof -
  obtain w1 es1 where g1: "ends cc_group (i, w, b1 @ s1 @ (b2 @ s2 @ b3 @ s3 @ rest)) =
      (i + 4 + length s1, w1, b2 @ s2 @ b3 @ s3 @ rest) # es1"
    using cc_group_first [OF assms(1,2), of "b2 @ s2 @ b3 @ s3 @ rest" i w] cc_block_hd [OF assms(3)]
    by auto
  obtain w2 es2 where g2: "ends cc_group (i + 4 + length s1, w1, b2 @ s2 @ (b3 @ s3 @ rest)) =
      (i + 4 + length s1 + 4 + length s2, w2, b3 @ s3 @ rest) # es2"
    using cc_group_first [OF assms(3,4), of "b3 @ s3 @ rest" "i + 4 + length s1" w1]
      cc_block_hd [OF assms(5)]
    by auto
  obtain w3 es3 where g3: "ends cc_group (i + 4 + length s1 + 4 + length s2, w2, b3 @ s3 @ rest) =
      (i + 4 + length s1 + 4 + length s2 + 4 + length s3, w3, rest) # es3"
    using cc_group_first [OF assms(5,6,7), of "i + 4 + length s1 + 4 + length s2" w2]
    by auto
  have "\<exists>es. iter (ends cc_group) 3 3 (i, w, b1 @ s1 @ b2 @ s2 @ b3 @ s3 @ rest) =
      (i + 4 + length s1 + 4 + length s2 + 4 + length s3, w3, rest) # es"
    using g1 g2 g3 by (simp add: eval_nat_numeral)
  then show ?thesis
    by (auto simp: times_def add_ac)
qed

lemma credit_card_first:
  assumes "cc_block b1" "cc_sep s1" "cc_block b2" "cc_sep s2" "cc_block b3" "cc_sep s3"
    and "cc_block b4" and "\<not> w" and "post = [] \<or> \<not> is_word (hd post)"
  shows "\<exists>es. ends credit_card_re (i, w, b1 @ s1 @ b2 @ s2 @ b3 @ s3 @ b4 @ post) =
           (i + 16 + length s1 + length s2 + length s3, True, post) # es"
proof -
  have bnd0: "at_boundary (i, w, b1 @ s1 @ b2 @ s2 @ b3 @ s3 @ b4 @ post)"
    using assms(1,8) by (cases b1) (auto simp: cc_block_def digit_is_word)
  obtain w' es where g: "ends (times 3 cc_group) (i, w, b1 @ s1 @ b2 @ s2 @ b3 @ s3 @ (b4 @ post)) =
      (i + 12 + length s1 + length s2 + length s3, w', b4 @ post) # es"
    using three_groups_first [OF assms(1-6), of "b4 @ post" i w] cc_block_hd [OF assms(7)]
    by auto
  have bnd1: "at_boundary (n, True, post)" for n
    using assms(9) by (cases post) auto
  show ?thesis
    using bnd0 g bnd1
    by (simp add: credit_card_re_def seq_def cc_block_ends [OF assms(7)] add_ac)
qed

lemma slice_middle: "slice (pre @ mid @ post) (length pre) (length pre + length mid) = mid"
  by (simp add: slice_def)

lemma advance_funpow:
  "k \<le> length ys \<Longrightarrow>
   fst ((advance ^^ k) (i, w, ys)) = i + k \<and>
   snd (snd ((advance ^^ k) (i, w, ys))) = drop k ys"
proof (induction k arbitrary: i w ys)
  case 0
  then show ?case by simp
next
  case (Suc k)
  then obtain c cs where ys: "ys = c # cs" by (cases ys) auto
  with Suc.prems have "k \<le> length cs" by simp
  from Suc.IH [OF this, of "Suc i" "is_word c"] show ?case
    by (simp add: ys funpow_swap1)
qed

lemma advance_funpow_append:
  "(advance ^^ length xs) (i, w, xs @ ys) =
     (i + length xs, (if xs = [] then w else is_word (last xs)), ys)"
proof (induction xs arbitrary: i w)
  case Nil
  then show ?case by simp
next
  case (Cons c xs)
  from Cons.IH [of "Suc i" "is_word c"] show ?case
    by (simp add: funpow_swap1)
qed

lemma reaches_refl: "reaches cur cur"
  unfolding reaches_def by (rule exI [of _ 0]) simp

lemma reaches_trans:
  assumes "reaches a b" and "reaches b c"
  shows "reaches a c"
proof -
  obtain i w ys where a: "a = (i, w, ys)" by (cases a)
  from assms(1) obtain k where k: "k \<le> length ys" "b = (advance ^^ k) a"
    by (auto simp: reaches_def a)
  have lb: "snd (snd b) = drop k ys"
    using advance_funpow [OF k(1), of i w] k(2) a by simp
  from assms(2) obtain m where m: "m \<le> length ys - k" "c = (advance ^^ m) b"
    by (auto simp: reaches_def lb)
  have "c = (advance ^^ (m + k)) a"
    using m(2) k(2) by (simp add: funpow_add)
  moreover have "m + k \<le> length ys" using m(1) k(1) by simp
  ultimately show ?thesis
    unfolding reaches_def a by auto
qed

lemma one_char_reaches: "e \<in> set (one_char P cur) \<Longrightarrow> reaches cur e"
proof -
  assume e: "e \<in> set (one_char P cur)"
  obtain i w ys where cur: "cur = (i, w, ys)" by (cases cur)
  from e cur obtain c cs where ys: "ys = c # cs" by (cases ys) auto
  from e have "e = (advance ^^ 1) cur"
    by (auto simp: cur ys split: if_splits)
  then show ?thesis
    unfolding reaches_def by (intro exI [of _ 1]) (simp add: cur ys)
qed

lemma iter_reaches:
  assumes "\<And>c e. e \<in> set (body c) \<Longrightarrow> reaches c e"
  shows "e \<in> set (iter body lo hi cur) \<Longrightarrow> reaches cur e"
proof (induction hi arbitrary: lo cur)
  case 0
  then show ?case by (auto simp: reaches_refl split: if_splits)
next
  case (Suc hi)
  then show ?case
    by (auto simp: reaches_refl split: if_splits intro: reaches_trans assms)
qed

lemma ends_reaches: "e \<in> set (ends r cur) \<Longrightarrow> reaches cur e"
proof (induction r arbitrary: cur e)
  case (Seq r1 r2)
  from Seq.prems obtain m where m: "m \<in> set (ends r1 cur)" "e \<in> set (ends r2 m)"
    by auto
  from Seq.IH(1) [OF m(1)] Seq.IH(2) [OF m(2)] show ?case
    by (rule reaches_trans)
next
  case (Rep r lo hi)
  from Rep.prems have "e \<in> set (iter (ends r) lo
      (case hi of None \<Rightarrow> length (snd (snd cur)) | Some h \<Rightarrow> h) cur)"
    by simp
  then show ?case
    using Rep.IH by (rule iter_reaches [rotated])
qed (auto simp: reaches_refl one_char_reaches split: if_splits)

lemma match_at_member:
  assumes "match_at r cur adv = Some e"
  shows "e \<in> set (ends r cur) \<and> \<not> (adv \<and> fst e = fst cur)"
proof -
  from assms obtain es where "filter (\<lambda>e. \<not> (adv \<and> fst e = fst cur)) (ends r cur) = e # es"
    by (auto simp: match_at_def split: list.splits)
  then have "e \<in> set (filter (\<lambda>e. \<not> (adv \<and> fst e = fst cur)) (ends r cur))"
    by simp
  then show ?thesis by simp
qed


lemma advance_funpow_cur:
  "k \<le> length (snd (snd cur)) \<Longrightarrow>
   fst ((advance ^^ k) cur) = fst cur + k \<and>
   snd (snd ((advance ^^ k) cur)) = drop k (snd (snd cur))"
  using advance_funpow [of k "snd (snd cur)" "fst cur" "fst (snd cur)"] by simp

lemma advance_step:
  "snd (snd cur) = c # cs \<Longrightarrow>
   fst (advance cur) = Suc (fst cur) \<and> snd (snd (advance cur)) = cs"
  by (cases cur) simp

lemma scan_reaches:
  "n \<le> length (snd (snd cur)) \<Longrightarrow>
   (\<forall>(i, j) \<in> set (finditer_from r cur adv). i < fst cur + n \<longrightarrow> j \<le> fst cur + n) \<Longrightarrow>
   \<exists>ms adv'. finditer_from r cur adv = ms @ finditer_from r ((advance ^^ n) cur) adv'"
proof (induction "2 * length (snd (snd cur)) + (if adv then 0 else 1::nat)"
       arbitrary: cur adv n rule: less_induct)
  case less
  show ?case
  proof (cases n)
    case 0
    then show ?thesis by (intro exI [of _ "[]"] exI [of _ adv]) simp
  next
    case (Suc n')
    with less.prems(1) obtain c cs where ys: "snd (snd cur) = c # cs"
      by (cases "snd (snd cur)") auto
    note st = advance_step [OF ys]
    show ?thesis
    proof (cases "match_at r cur adv")
      case None
      have eq: "finditer_from r cur adv = finditer_from r (advance cur) False"
        by (subst finditer_from.simps) (simp add: None ys)
      have "\<exists>ms adv'. finditer_from r (advance cur) False =
              ms @ finditer_from r ((advance ^^ n') (advance cur)) adv'"
      proof (rule less.hyps)
        show "2 * length (snd (snd (advance cur))) + (if False then 0 else 1)
              < 2 * length (snd (snd cur)) + (if adv then 0 else 1::nat)"
          by (simp add: st ys)
        show "n' \<le> length (snd (snd (advance cur)))"
          using less.prems(1) Suc by (simp add: st ys)
        show "\<forall>(a, b) \<in> set (finditer_from r (advance cur) False).
                a < fst (advance cur) + n' \<longrightarrow> b \<le> fst (advance cur) + n'"
          using less.prems(2) Suc by (simp add: eq st)
      qed
      then show ?thesis
        using eq by (simp add: Suc funpow_swap1)
    next
      case (Some e)
      from match_at_member [OF Some]
      have mem: "e \<in> set (ends r cur)" and adv: "\<not> (adv \<and> fst e = fst cur)"
        by simp_all
      from ends_reaches [OF mem] obtain k where k: "k \<le> length (snd (snd cur))"
        "e = (advance ^^ k) cur"
        by (auto simp: reaches_def)
      have fe: "fst e = fst cur + k" and re: "snd (snd e) = drop k (snd (snd cur))"
        using advance_funpow_cur [OF k(1)] k(2) by simp_all
      show ?thesis
      proof (cases "k = 0")
        case True
        then have e: "e = cur" using k(2) by simp
        with adv have nadv: "\<not> adv" by simp
        have eq: "finditer_from r cur adv = (fst cur, fst cur) # finditer_from r cur True"
          using Some nadv by (subst finditer_from.simps) (simp add: e)
        have "\<exists>ms adv'. finditer_from r cur True = ms @ finditer_from r ((advance ^^ n) cur) adv'"
        proof (rule less.hyps)
          show "2 * length (snd (snd cur)) + (if True then 0 else 1)
                < 2 * length (snd (snd cur)) + (if adv then 0 else 1::nat)"
            using nadv by simp
          show "n \<le> length (snd (snd cur))" by (rule less.prems(1))
          show "\<forall>(a, b) \<in> set (finditer_from r cur True). a < fst cur + n \<longrightarrow> b \<le> fst cur + n"
            using less.prems(2) by (simp add: eq)
        qed
        then obtain ms adv' where "finditer_from r cur True =
            ms @ finditer_from r ((advance ^^ n) cur) adv'" by blast
        then have "finditer_from r cur adv =
            ((fst cur, fst cur) # ms) @ finditer_from r ((advance ^^ n) cur) adv'"
          by (simp add: eq)
        then show ?thesis by blast
      next
        case False
        have shorter: "length (snd (snd e)) < length (snd (snd cur))"
          using False k(1) by (simp add: re ys)
        have eq: "finditer_from r cur adv = (fst cur, fst cur + k) # finditer_from r e False"
          using Some shorter by (subst finditer_from.simps) (simp add: fe)
        have kn: "k \<le> n"
          using less.prems(2) Suc by (simp add: eq)
        have "\<exists>ms adv'. finditer_from r e False = ms @ finditer_from r ((advance ^^ (n - k)) e) adv'"
        proof (rule less.hyps)
          show "2 * length (snd (snd e)) + (if False then 0 else 1)
                < 2 * length (snd (snd cur)) + (if adv then 0 else 1::nat)"
            using shorter by simp
          show "n - k \<le> length (snd (snd e))"
            using less.prems(1) by (simp add: re)
          show "\<forall>(a, b) \<in> set (finditer_from r e False).
                  a < fst e + (n - k) \<longrightarrow> b \<le> fst e + (n - k)"
            using less.prems(2) kn by (simp add: eq fe)
        qed
        then obtain ms adv' where "finditer_from r e False =
            ms @ finditer_from r ((advance ^^ (n - k)) e) adv'" by blast
        moreover have "(advance ^^ (n - k)) e = (advance ^^ n) cur"
        proof -
          have "(advance ^^ (n - k + k)) cur = (advance ^^ (n - k)) ((advance ^^ k) cur)"
            by (simp only: funpow_add comp_apply)
          with kn show ?thesis by (simp add: k(2))
        qed
        ultimately have "finditer_from r cur adv =
            ((fst cur, fst cur + k) # ms) @ finditer_from r ((advance ^^ n) cur) adv'"
          by (simp add: eq)
        then show ?thesis by blast
      qed
    qed
  qed
qed


lemma credit_card_first_any:
  assumes "cc_block b1" "cc_sep s1" "cc_block b2" "cc_sep s2" "cc_block b3" "cc_sep s3"
    and "cc_block b4" and "\<not> w" and "post = [] \<or> \<not> is_word (hd post)"
  shows "match_at credit_card_re (i, w, b1 @ s1 @ b2 @ s2 @ b3 @ s3 @ b4 @ post) adv =
           Some (i + 16 + length s1 + length s2 + length s3, True, post)"
proof -
  obtain es where "ends credit_card_re (i, w, b1 @ s1 @ b2 @ s2 @ b3 @ s3 @ b4 @ post) =
           (i + 16 + length s1 + length s2 + length s3, True, post) # es"
    using credit_card_first [OF assms, of i] by blast
  then show ?thesis by (simp add: match_at_def)
qed

lemma finditer_credit_card_reached:
  assumes "cc_block b1" "cc_sep s1" "cc_block b2" "cc_sep s2" "cc_block b3" "cc_sep s3"
    and "cc_block b4"
    and "pre = [] \<or> \<not> is_word (last pre)"
    and "post = [] \<or> \<not> is_word (hd post)"
    and "cnum = b1 @ s1 @ b2 @ s2 @ b3 @ s3 @ b4"
    and "\<forall>(i, j) \<in> set (finditer credit_card_re (pre @ cnum @ post)).
           i < length pre \<longrightarrow> j \<le> length pre"
  shows "(length pre, length pre + length cnum) \<in> set (finditer credit_card_re (pre @ cnum @ post))"
proof -
  let ?w = "if pre = [] then False else is_word (last pre)"
  have w: "\<not> ?w" using assms(8) by auto
  have len: "length cnum = 16 + length s1 + length s2 + length s3"
    using assms(1,3,5,7) by (simp add: assms(10) cc_block_def)
  have "\<exists>ms adv'. finditer_from credit_card_re (start_cursor (pre @ cnum @ post)) False =
      ms @ finditer_from credit_card_re
             ((advance ^^ length pre) (start_cursor (pre @ cnum @ post))) adv'"
    using assms(11) by (intro scan_reaches) (simp_all add: start_cursor_def finditer_def)
  then obtain ms adv' where scan: "finditer credit_card_re (pre @ cnum @ post) =
      ms @ finditer_from credit_card_re (length pre, ?w, cnum @ post) adv'"
    using advance_funpow_append [of pre 0 False "cnum @ post"]
    by (auto simp: finditer_def start_cursor_def)
  have m: "match_at credit_card_re (length pre, ?w, cnum @ post) adv' =
      Some (length pre + length cnum, True, post)"
    using credit_card_first_any [OF assms(1-7) w assms(9), of "length pre" adv'] assms(1,3,5,7)
    by (simp add: assms(10) cc_block_def)
  have "\<exists>more. finditer_from credit_card_re (length pre, ?w, cnum @ post) adv' =
      (length pre, length pre + length cnum) # more"
    by (subst finditer_from.simps) (simp add: m)
  with scan show ?thesis by auto
qed

lemma inspect_text_credit_card:
  "(i, j) \<in> set (finditer credit_card_re text) \<Longrightarrow>
   \<lparr>ftype = ''credit_card'', fvalue = slice text i j, fposition = (i, j),
    fseverity = ''HIGH''\<rparr> \<in> set (inspect_text text)"
  by (force simp: inspect_text_def PATTERNS_def findings_of_def get_severity_def image_iff)

text \<open>
  C2, as the code has it. The pattern asks for four blocks of four digits, each of the
  first three followed by at most one dash or whitespace character. When such a
  sequence of 16 digits stands in a text with no word character right before or right
  after it, and no \<open>credit_card\<close> finding that starts before it reaches into it,
  \<open>inspect_text\<close> returns a \<open>credit_card\<close> finding of severity \<open>HIGH\<close> whose value and
  span are exactly the sequence.
\<close>

theorem credit_card_16_digits_detected:
  assumes "cc_block b1" "cc_sep s1" "cc_block b2" "cc_sep s2" "cc_block b3" "cc_sep s3"
    and "cc_block b4"
    and "pre = [] \<or> \<not> is_word (last pre)"
    and "post = [] \<or> \<not> is_word (hd post)"
    and "\<forall>f \<in> set (inspect_text (pre @ (b1 @ s1 @ b2 @ s2 @ b3 @ s3 @ b4) @ post)).
           ftype f = ''credit_card'' \<and> fst (fposition f) < length pre \<longrightarrow>
           snd (fposition f) \<le> length pre"
  shows "\<lparr>ftype = ''credit_card'', fvalue = b1 @ s1 @ b2 @ s2 @ b3 @ s3 @ b4,
          fposition = (length pre, length pre + length (b1 @ s1 @ b2 @ s2 @ b3 @ s3 @ b4)),
          fseverity = ''HIGH''\<rparr>
         \<in> set (inspect_text (pre @ (b1 @ s1 @ b2 @ s2 @ b3 @ s3 @ b4) @ post))"
proof -
  let ?cnum = "b1 @ s1 @ b2 @ s2 @ b3 @ s3 @ b4"
  let ?text = "pre @ ?cnum @ post"
  have free: "\<forall>(i, j) \<in> set (finditer credit_card_re ?text). i < length pre \<longrightarrow> j \<le> length pre"
  proof (clarify)
    fix i j assume ij: "(i, j) \<in> set (finditer credit_card_re ?text)" and "i < length pre"
    with assms(10) inspect_text_credit_card [OF ij] show "j \<le> length pre"
      by fastforce
  qed
  have "(length pre, length pre + length ?cnum) \<in> set (finditer credit_card_re ?text)"
    by (rule finditer_credit_card_reached [OF assms(1-9) refl free])
  from inspect_text_credit_card [OF this] show ?thesis
    by (simp only: slice_middle)
qed

text \<open>The text of \<open>test_inspector_detection\<close> in \<open>test_modules.py\<close>.\<close>

lemma inspect_test_text:
  "inspect_text
     ''Account: 123456789, Route: 987654321, Card: 1111-2222-3333-4444, Pass: Secret123'' =
   [\<lparr>ftype = ''credit_card'', fvalue = ''1111-2222-3333-4444'', fposition = (44, 63),
     fseverity = ''HIGH''\<rparr>,
    \<lparr>ftype = ''account_number'', fvalue = ''Account: 123456789'', fposition = (0, 18),
     fseverity = ''MEDIUM''\<rparr>,
    \<lparr>ftype = ''routing_number'', fvalue = ''Route: 987654321'', fposition = (20, 36),
     fseverity = ''MEDIUM''\<rparr>,
    \<lparr>ftype = ''password'', fvalue = ''Pass: Secret123'', fposition = (65, 80),
     fseverity = ''HIGH''\<rparr>]"
  by code_simp


theorem credit_card_16_digits_detected_witness:
  "cc_block ''1111'' \<and> cc_sep ''-'' \<and> cc_block ''2222'' \<and> cc_block ''3333'' \<and>
   cc_block ''4444'' \<and>
   \<not> is_word (last ''Account: 123456789, Route: 987654321, Card: '') \<and>
   \<not> is_word (hd '', Pass: Secret123'') \<and>
   \<lparr>ftype = ''credit_card'', fvalue = ''1111-2222-3333-4444'', fposition = (44, 63),
    fseverity = ''HIGH''\<rparr>
     \<in> set (inspect_text
         ''Account: 123456789, Route: 987654321, Card: 1111-2222-3333-4444, Pass: Secret123'')"
  using credit_card_16_digits_detected [of "''1111''" "''-''" "''2222''" "''-''" "''3333''" "''-''" "''4444''"
      "''Account: 123456789, Route: 987654321, Card: ''" "'', Pass: Secret123''"]
  by (simp add: inspect_test_text cc_block_def cc_sep_def is_digit_def is_space_def is_word_def
        is_alnum_def code_def Let_def)

text \<open>
  The condition on earlier findings is needed: \<open>re.finditer\<close> returns matches that do
  not overlap, so of two sequences of 16 digits that share blocks only the first is a
  finding.
\<close>

lemma credit_card_overlap_first_only:
  "inspect_text ''1111 2222 3333 4444 5555'' =
     [\<lparr>ftype = ''credit_card'', fvalue = ''1111 2222 3333 4444'', fposition = (0, 19),
       fseverity = ''HIGH''\<rparr>]"
  by code_simp

text \<open>
  C2, as it is stated, fails: a text that is a sequence of 13, of 14 or of 15 digits has
  no finding at all.
\<close>

theorem credit_card_13_digits_counterexample:
  "inspect_text ''1234567890123'' = [] \<and> inspect_text ''12345678901234'' = [] \<and>
   inspect_text ''123456789012345'' = []"
  by code_simp

section \<open>Properties of the redactor\<close>

lemma redact_loop_log:
  "snd (redact_loop pf fs rt rlog) = rlog @ map (log_entry pf) fs"
  by (induction fs arbitrary: rt rlog) (simp_all add: split_def Let_def)

lemma redact_text_log:
  "snd (redact_text text pf) = map (log_entry pf) (sorted_reverse (inspect_text text))"
  by (simp add: redact_text_def redact_loop_log)

lemma mset_sorted_reverse: "mset (sorted_reverse fs) = mset fs"
  by (simp add: sorted_reverse_def)

lemma set_sorted_reverse: "set (sorted_reverse fs) = set fs"
  by (simp add: sorted_reverse_def)

text \<open>
  C5. For every text and either mode, \<open>redact_text\<close> returns as many records as
  detection returns findings, and the records carry exactly the kinds, severities and
  spans of the findings (as a multiset: the log is in redaction order).
\<close>

theorem redact_text_one_record_per_finding:
  "length (snd (redact_text text pf)) = length (inspect_text text) \<and>
   mset (map (\<lambda>r. (rtype r, rseverity r, rposition r)) (snd (redact_text text pf))) =
   mset (map (\<lambda>f. (ftype f, fseverity f, fposition f)) (inspect_text text))"
proof -
  have "map (\<lambda>r. (rtype r, rseverity r, rposition r)) (snd (redact_text text pf)) =
        map (\<lambda>f. (ftype f, fseverity f, fposition f)) (sorted_reverse (inspect_text text))"
    by (simp add: redact_text_log log_entry_def comp_def)
  moreover have "mset (map (\<lambda>f. (ftype f, fseverity f, fposition f))
                    (sorted_reverse (inspect_text text))) =
        mset (map (\<lambda>f. (ftype f, fseverity f, fposition f)) (inspect_text text))"
    using mset_sorted_reverse [of "inspect_text text"] by (metis mset_map)
  moreover have "length (snd (redact_text text pf)) = length (inspect_text text)"
    using mset_sorted_reverse [of "inspect_text text"]
    by (simp add: redact_text_log) (metis size_mset)
  ultimately show ?thesis by simp
qed

text \<open>
  C9. When detection finds nothing in a text, \<open>redact_text\<close> returns the text
  unchanged and an empty log, in either mode.
\<close>

theorem redact_text_no_findings:
  "inspect_text text = [] \<Longrightarrow> redact_text text pf = (text, [])"
  by (simp add: redact_text_def sorted_reverse_def)

lemma inspect_hello: "inspect_text ''Hello world'' = []"
  by code_simp

theorem redact_text_no_findings_witness:
  "inspect_text ''Hello world'' = [] \<and>
   redact_text ''Hello world'' True = (''Hello world'', []) \<and>
   redact_text ''Hello world'' False = (''Hello world'', [])"
  using inspect_hello redact_text_no_findings [OF inspect_hello, of True]
    redact_text_no_findings [OF inspect_hello, of False]
  by simp

text \<open>
  C8. With \<open>preserve_format\<close> true, every record of the log whose original value is
  longer than 4 characters shows the first 2 characters of the original followed by
  asterisks, and is as long as the original; a value of at most 4 characters is all
  asterisks.
\<close>

theorem redact_text_preserve_format:
  "\<forall>r \<in> set (snd (redact_text text True)).
     (4 < length (original r) \<longrightarrow>
        redacted r = take 2 (original r) @ replicate (length (original r) - 2) CHR ''*'' \<and>
        length (redacted r) = length (original r)) \<and>
     (length (original r) \<le> 4 \<longrightarrow>
        redacted r = replicate (length (original r)) CHR ''*'')"
  by (auto simp: redact_text_log log_entry_def redacted_value_def Let_def)

lemma redact_pwd_log:
  "snd (redact_text ''pwd1 pass: secret'' True) =
     [\<lparr>rtype = ''password'', original = ''pass: secret'', redacted = ''pa**********'',
       rposition = (5, 17), rseverity = ''HIGH''\<rparr>,
      \<lparr>rtype = ''password'', original = ''pwd1'', redacted = ''****'',
       rposition = (0, 4), rseverity = ''HIGH''\<rparr>]"
  by code_simp

theorem redact_text_preserve_format_witness:
  "(let r1 = \<lparr>rtype = ''password'', original = ''pass: secret'', redacted = ''pa**********'',
               rposition = (5, 17), rseverity = ''HIGH''\<rparr>;
        r2 = \<lparr>rtype = ''password'', original = ''pwd1'', redacted = ''****'',
               rposition = (0, 4), rseverity = ''HIGH''\<rparr>
    in r1 \<in> set (snd (redact_text ''pwd1 pass: secret'' True)) \<and>
       r2 \<in> set (snd (redact_text ''pwd1 pass: secret'' True)) \<and>
       4 < length (original r1) \<and> length (original r2) \<le> 4 \<and>
       redacted r1 = take 2 (original r1) @ replicate (length (original r1) - 2) CHR ''*'' \<and>
       length (redacted r1) = length (original r1) \<and>
       redacted r2 = replicate (length (original r2)) CHR ''*'')"
  using redact_text_preserve_format [of "''pwd1 pass: secret''"]
  by (simp add: redact_pwd_log)

lemma inspect_text_severity:
  "f \<in> set (inspect_text text) \<Longrightarrow> fseverity f = get_severity (ftype f)"
  by (auto simp: inspect_text_def findings_of_def)

lemma get_severity_range: "get_severity k \<in> {''HIGH'', ''MEDIUM'', ''LOW''}"
  by (simp add: get_severity_def)

lemma summary_loop_ok:
  assumes "map fst (by_severity sm) = [''HIGH'', ''MEDIUM'', ''LOW'']"
    and "\<forall>r \<in> set rs. rseverity r \<in> {''HIGH'', ''MEDIUM'', ''LOW''}"
  shows "\<exists>sm'. summary_loop rs sm = Inr sm' \<and>
           map fst (by_severity sm') = [''HIGH'', ''MEDIUM'', ''LOW''] \<and>
           total_redactions sm' = total_redactions sm"
  using assms
proof (induction rs arbitrary: sm)
  case Nil
  then show ?case by simp
next
  case (Cons r rs)
  let ?sm1 = "sm\<lparr>by_type :=
                  AList.update (rtype r) (dict_get (by_type sm) (rtype r) 0 + 1) (by_type sm)\<rparr>"
  have mem: "rseverity r \<in> set (map fst (by_severity ?sm1))"
    using Cons.prems by simp
  then obtain n where n: "map_of (by_severity ?sm1) (rseverity r) = Some n"
    by (metis map_of_eq_None_iff not_Some_eq set_map)
  let ?sm2 = "?sm1\<lparr>by_severity := AList.update (rseverity r) (n + 1) (by_severity ?sm1)\<rparr>"
  have keys: "map fst (by_severity ?sm2) = [''HIGH'', ''MEDIUM'', ''LOW'']"
    using mem Cons.prems(1) by (simp add: update_keys)
  from Cons.IH [OF keys] Cons.prems(2)
  obtain sm' where "summary_loop rs ?sm2 = Inr sm'"
    "map fst (by_severity sm') = [''HIGH'', ''MEDIUM'', ''LOW'']"
    "total_redactions sm' = total_redactions ?sm2"
    by auto
  then show ?case using n by (simp add: Let_def)
qed

lemma redact_text_severity:
  "r \<in> set (snd (redact_text text pf)) \<Longrightarrow> rseverity r \<in> {''HIGH'', ''MEDIUM'', ''LOW''}"
proof -
  assume "r \<in> set (snd (redact_text text pf))"
  then obtain f where f: "f \<in> set (inspect_text text)" and r: "r = log_entry pf f"
    by (auto simp: redact_text_log set_sorted_reverse)
  have "rseverity r = get_severity (ftype f)"
    using f r by (simp add: log_entry_def inspect_text_severity)
  then show ?thesis
    using get_severity_range [of "ftype f"] by simp
qed

lemma create_summary_ok:
  "\<exists>sm. create_summary (snd (redact_text text pf)) = Inr sm \<and>
        map fst (by_severity sm) = [''HIGH'', ''MEDIUM'', ''LOW''] \<and>
        total_redactions sm = int (length (snd (redact_text text pf)))"
  using summary_loop_ok [of "\<lparr>total_redactions = int (length (snd (redact_text text pf))),
        by_type = [], by_severity = [(''HIGH'', 0), (''MEDIUM'', 0), (''LOW'', 0)]\<rparr>"
        "snd (redact_text text pf)"] redact_text_severity [of _ "text" pf]
  by (simp add: create_summary_def)

lemma redact_document_ok:
  "\<exists>rr. redact_document content = Inr rr \<and> rr_redacted rr = fst (redact_text content True) \<and>
         redaction_log rr = snd (redact_text content True) \<and>
         redaction_count rr = int (length (snd (redact_text content True)))"
  using create_summary_ok [of content True]
  by (auto simp: redact_document_def split_def Let_def)

text \<open>
  C10. Every finding of \<open>inspect_text\<close> has severity \<open>HIGH\<close>, \<open>MEDIUM\<close> or \<open>LOW\<close>,
  as \<open>_get_severity\<close> returns one of the three for any pattern name; so
  \<open>_create_summary\<close> on the log of \<open>redact_text\<close> never misses a severity key: it
  returns a summary, whose \<open>by_severity\<close> has exactly the keys \<open>HIGH\<close>, \<open>MEDIUM\<close>,
  \<open>LOW\<close>.
\<close>

theorem severity_total_and_summary_defined:
  "(\<forall>f \<in> set (inspect_text text). fseverity f \<in> {''HIGH'', ''MEDIUM'', ''LOW''}) \<and>
   get_severity k \<in> {''HIGH'', ''MEDIUM'', ''LOW''} \<and>
   (\<exists>sm. create_summary (snd (redact_text text pf)) = Inr sm \<and>
          map fst (by_severity sm) = [''HIGH'', ''MEDIUM'', ''LOW''])"
proof -
  have a: "\<forall>f \<in> set (inspect_text text). fseverity f \<in> {''HIGH'', ''MEDIUM'', ''LOW''}"
    using get_severity_range by (simp add: inspect_text_severity del: insert_iff)
  have b: "get_severity k \<in> {''HIGH'', ''MEDIUM'', ''LOW''}"
    by (rule get_severity_range)
  have c: "\<exists>sm. create_summary (snd (redact_text text pf)) = Inr sm \<and>
          map fst (by_severity sm) = [''HIGH'', ''MEDIUM'', ''LOW'']"
    using create_summary_ok [of "text" pf] by (elim exE conjE) (intro exI conjI)
  from a b c show ?thesis by (intro conjI)
qed

lemma inspect_email:
  "inspect_text ''a@b.co'' =
     [\<lparr>ftype = ''email'', fvalue = ''a@b.co'', fposition = (0, 6), fseverity = ''LOW''\<rparr>]"
  by code_simp

theorem severity_total_and_summary_defined_witness:
  "\<lparr>ftype = ''email'', fvalue = ''a@b.co'', fposition = (0, 6), fseverity = ''LOW''\<rparr>
     \<in> set (inspect_text ''a@b.co'') \<and>
   fseverity \<lparr>ftype = ''email'', fvalue = ''a@b.co'', fposition = (0, 6), fseverity = ''LOW''\<rparr>
     \<in> {''HIGH'', ''MEDIUM'', ''LOW''} \<and>
   get_severity ''email'' = ''LOW'' \<and>
   (\<exists>sm. create_summary (snd (redact_text ''a@b.co'' True)) = Inr sm \<and>
          map fst (by_severity sm) = [''HIGH'', ''MEDIUM'', ''LOW''])"
  using severity_total_and_summary_defined [of "''a@b.co''" "''email''" True]
  by (simp add: inspect_email get_severity_def)

section \<open>Properties of the interceptor\<close>

lemma py_slice_from_neg:
  "0 < limit \<Longrightarrow> py_slice_from xs (- limit) = drop (length xs - nat limit) xs"
  by (simp add: py_slice_from_def) (metis nat_diff_distrib' nat_int of_nat_0_le_iff zero_less_imp_eq_int)

lemma get_trace_history_positive:
  "0 < limit \<Longrightarrow>
   get_trace_history s limit = drop (length (trace_log s) - nat limit) (trace_log s)"
  by (simp add: get_trace_history_def py_slice_from_neg)

text \<open>
  C3. With \<open>limit = 0\<close> the slice \<open>trace_log[-0:]\<close> is \<open>trace_log[0:]\<close>:
  \<open>get_trace_history\<close> returns the whole log, on a log of one trace that trace, where
  the claim says the empty list.
\<close>

theorem get_trace_history_zero_returns_all:
  "get_trace_history s 0 = trace_log s \<and>
   get_trace_history \<lparr>trace_log = [t], interception_count = 1, clock_reads = 10\<rparr> 0 = [t]"
  by (simp add: get_trace_history_def py_slice_from_def)

lemma update_first_last:
  "\<forall>t \<in> set ts. trace_id t \<noteq> tid \<Longrightarrow> trace_id t0 = tid \<Longrightarrow>
   update_first tid f (ts @ [t0]) = ts @ [f t0]"
  by (induction ts) auto

lemma log_trace_last:
  assumes "\<forall>t \<in> set ts. trace_id t \<noteq> tid"
  shows "log_trace clk tid ty d dat
           \<lparr>trace_log = ts @ [\<lparr>trace_id = tid, start_time = st, events = evs, status = stt,
                                end_time = et, duration = du\<rparr>],
            interception_count = c, clock_reads = k\<rparr> =
         \<lparr>trace_log = ts @ [\<lparr>trace_id = tid, start_time = st,
                              events = evs @ [\<lparr>etype = ty, edescription = d, edata = dat,
                                               etimestamp = clk k\<rparr>],
                              status = stt, end_time = et, duration = du\<rparr>],
          interception_count = c, clock_reads = Suc k\<rparr>"
  using assms by (simp add: log_trace_def time_time_def update_first_last list_ex_iff)

lemma complete_trace_last:
  assumes "\<forall>t \<in> set ts. trace_id t \<noteq> tid"
  shows "complete_trace clk tid
           \<lparr>trace_log = ts @ [\<lparr>trace_id = tid, start_time = st, events = evs, status = stt,
                                end_time = et, duration = du\<rparr>],
            interception_count = c, clock_reads = k\<rparr> =
         \<lparr>trace_log = ts @ [\<lparr>trace_id = tid, start_time = st, events = evs,
                              status = ''completed'', end_time = Some (clk k),
                              duration = Some (clk k - st)\<rparr>],
          interception_count = c, clock_reads = Suc k\<rparr>"
  using assms by (simp add: complete_trace_def time_time_def update_first_last list_ex_iff)

lemma start_trace_run:
  "start_trace clk \<lparr>trace_log = ts, interception_count = c, clock_reads = k\<rparr> =
     (trace_id_fmt (Suc c),
      \<lparr>trace_log = ts @ [\<lparr>trace_id = trace_id_fmt (Suc c), start_time = clk k, events = [],
                           status = ''in_progress'', end_time = None, duration = None\<rparr>],
       interception_count = Suc c, clock_reads = Suc k\<rparr>)"
  by (simp add: start_trace_def time_time_def Let_def)

lemma process_with_trace_run:
  assumes fresh: "\<forall>t \<in> set ts. trace_id t \<noteq> trace_id_fmt (Suc c)"
    and rr: "redact_document content = Inr rr"
  shows "\<exists>r e1 e2 e3 e4.
     process_with_trace clk content \<lparr>trace_log = ts, interception_count = c, clock_reads = k\<rparr> =
       (Inr r,
        \<lparr>trace_log = ts @ [\<lparr>trace_id = trace_id_fmt (Suc c), start_time = clk k,
                             events = [e1, e2, e3, e4], status = ''completed'',
                             end_time = Some (clk (k + 9)),
                             duration = Some (clk (k + 9) - clk k)\<rparr>],
         interception_count = Suc c, clock_reads = k + 10\<rparr>) \<and>
     res_trace_id r = trace_id_fmt (Suc c) \<and>
     redacted_content r = rr_redacted rr \<and>
     redaction_details r = redaction_log rr \<and>
     redaction_summary r = rr_summary rr \<and>
     map step_no (trace_steps r) = [1, 2, 3, 4] \<and>
     map etype [e1, e2, e3, e4] =
       [''AGENT_READ'', ''ARCHESTRA_INTERCEPT'', ''PHANTOM_REDACT'', ''SAFE_DATA_DELIVERED''] \<and>
     edata e3 = [(''redactions_made'', PInt (redaction_count rr)),
                 (''summary'', PSummary (rr_summary rr)),
                 (''redaction_log'', PLog (redaction_log rr))]"
  by (simp add: process_with_trace_def start_trace_run time_time_def Let_def rr
        log_trace_last [OF fresh] complete_trace_last [OF fresh] eval_nat_numeral)


lemma undigits_snoc: "undigits (cs @ [c]) = 10 * undigits cs + (of_char c - 48)"
  by (simp add: undigits_def)

lemma undigits_digits: "undigits (digits n) = n"
proof (induction n rule: digits.induct)
  case (1 n)
  show ?case
  proof (cases "n < 10")
    case True
    then show ?thesis
      by (subst digits.simps) (simp add: undigits_def)
  next
    case False
    then have "undigits (digits n) = 10 * undigits (digits (n div 10)) + n mod 10"
      by (subst digits.simps) (simp add: undigits_snoc)
    with 1 False show ?thesis by simp
  qed
qed

lemma undigits_zeros: "undigits (replicate k CHR ''0'' @ cs) = undigits cs"
  by (induction k) (simp_all add: undigits_def)

lemma trace_seq_no_fmt: "trace_seq_no (trace_id_fmt n) = n"
  by (simp add: trace_seq_no_def trace_id_fmt_def undigits_zeros undigits_digits)

lemma trace_id_fmt_inj: "trace_id_fmt a = trace_id_fmt b \<Longrightarrow> a = b"
  by (metis trace_seq_no_fmt)

lemma ids_in_order_fresh:
  assumes "ids_in_order s"
  shows "\<forall>t \<in> set (trace_log s). trace_id t \<noteq> trace_id_fmt (Suc (interception_count s))"
proof
  fix t assume "t \<in> set (trace_log s)"
  then have "trace_id t \<in> set (map trace_id (trace_log s))" by simp
  also have "map trace_id (trace_log s) = map trace_id_fmt [1..<Suc (interception_count s)]"
    using assms by (simp only: ids_in_order_def)
  finally have "trace_id t \<in> trace_id_fmt ` {1..<Suc (interception_count s)}"
    by (simp only: set_map set_upt)
  then obtain m where "m < Suc (interception_count s)" "trace_id t = trace_id_fmt m" by auto
  then show "trace_id t \<noteq> trace_id_fmt (Suc (interception_count s))"
    using trace_id_fmt_inj by fastforce
qed

lemma ids_in_order_init: "ids_in_order init"
  by (simp add: ids_in_order_def init_def)

lemma ids_in_order_step:
  assumes "ids_in_order \<lparr>trace_log = ts, interception_count = c, clock_reads = k\<rparr>"
    and "trace_id t = trace_id_fmt (Suc c)"
  shows "ids_in_order \<lparr>trace_log = ts @ [t], interception_count = Suc c, clock_reads = k'\<rparr>"
  using assms by (simp add: ids_in_order_def)





lemma stats_safe_new:
  assumes "map etype [e1, e2, e3, e4] =
       [''AGENT_READ'', ''ARCHESTRA_INTERCEPT'', ''PHANTOM_REDACT'', ''SAFE_DATA_DELIVERED'']"
    and "edata e3 = [(''redactions_made'', v1), (''summary'', v2), (''redaction_log'', v3)]"
  shows "event_redactions [e1, e2, e3, e4] acc = Inr acc"
  using assms by (simp add: dict_get_def)

lemma stats_loop_safe:
  assumes "\<forall>t \<in> set ts. \<forall>acc. event_redactions (events t) acc = Inr acc"
  shows "\<exists>d. stats_loop ts a dur = Inr (a, d)"
  using assms by (induction ts arbitrary: dur) auto

lemma get_statistics_safe:
  assumes "stats_safe s"
  shows "\<exists>st. get_statistics s = Inr st \<and> total_interceptions st = interception_count s \<and>
           stat_total_redactions st = 0"
proof -
  obtain d where "stats_loop (trace_log s) 0 0 = Inr (0, d)"
    using stats_loop_safe [of "trace_log s" 0 0] assms by (auto simp: stats_safe_def)
  then show ?thesis by (simp add: get_statistics_def)
qed

lemma process_with_trace_step:
  assumes "ids_in_order s"
  shows "\<exists>r s'. process_with_trace clk content s = (Inr r, s') \<and>
           res_trace_id r = trace_id_fmt (Suc (interception_count s)) \<and>
           interception_count s' = Suc (interception_count s) \<and>
           ids_in_order s' \<and> (stats_safe s \<longrightarrow> stats_safe s')"
proof -
  obtain ts c k where s: "s = \<lparr>trace_log = ts, interception_count = c, clock_reads = k\<rparr>"
    by (cases s) simp
  have fresh: "\<forall>t \<in> set ts. trace_id t \<noteq> trace_id_fmt (Suc c)"
    using ids_in_order_fresh [OF assms] by (simp add: s)
  obtain rr where rr: "redact_document content = Inr rr"
    using redact_document_ok [of content] by (elim exE conjE)
  from process_with_trace_run [OF fresh rr, of clk k]
  obtain r e1 e2 e3 e4 where run:
    "process_with_trace clk content \<lparr>trace_log = ts, interception_count = c, clock_reads = k\<rparr> =
       (Inr r,
        \<lparr>trace_log = ts @ [\<lparr>trace_id = trace_id_fmt (Suc c), start_time = clk k,
                             events = [e1, e2, e3, e4], status = ''completed'',
                             end_time = Some (clk (k + 9)),
                             duration = Some (clk (k + 9) - clk k)\<rparr>],
         interception_count = Suc c, clock_reads = k + 10\<rparr>)"
    and id: "res_trace_id r = trace_id_fmt (Suc c)"
    and ty: "map etype [e1, e2, e3, e4] =
       [''AGENT_READ'', ''ARCHESTRA_INTERCEPT'', ''PHANTOM_REDACT'', ''SAFE_DATA_DELIVERED'']"
    and dat: "edata e3 = [(''redactions_made'', PInt (redaction_count rr)),
                 (''summary'', PSummary (rr_summary rr)),
                 (''redaction_log'', PLog (redaction_log rr))]"
    by (elim exE conjE)
  let ?t = "\<lparr>trace_id = trace_id_fmt (Suc c), start_time = clk k,
             events = [e1, e2, e3, e4], status = ''completed'',
             end_time = Some (clk (k + 9)), duration = Some (clk (k + 9) - clk k)\<rparr>"
  let ?s' = "\<lparr>trace_log = ts @ [?t], interception_count = Suc c, clock_reads = k + 10\<rparr>"
  have ord: "ids_in_order ?s'"
    using ids_in_order_step [of ts c k ?t "k + 10"] assms by (simp add: s)
  have safe: "stats_safe s \<longrightarrow> stats_safe ?s'"
    using stats_safe_new [OF ty dat] by (auto simp: stats_safe_def s)
  show ?thesis
    using run id ord safe unfolding s by (intro exI [of _ r] exI [of _ ?s']) simp
qed

lemma run_ids:
  assumes "ids_in_order s" and "stats_safe s"
  shows "result_ids (fst (run clk cs s)) =
           map trace_id_fmt [Suc (interception_count s)..<Suc (interception_count s + length cs)] \<and>
         interception_count (snd (run clk cs s)) = interception_count s + length cs \<and>
         ids_in_order (snd (run clk cs s)) \<and> stats_safe (snd (run clk cs s))"
  using assms
proof (induction cs arbitrary: s)
  case Nil
  then show ?case by (simp add: result_ids_def)
next
  case (Cons c cs)
  from process_with_trace_step [OF Cons.prems(1), of clk c] Cons.prems(2)
  obtain r s1 where step: "process_with_trace clk c s = (Inr r, s1)"
    and id: "res_trace_id r = trace_id_fmt (Suc (interception_count s))"
    and cnt: "interception_count s1 = Suc (interception_count s)"
    and inv: "ids_in_order s1" "stats_safe s1"
    by blast
  have ih: "result_ids (fst (run clk cs s1)) =
           map trace_id_fmt [Suc (interception_count s1)..<Suc (interception_count s1 + length cs)] \<and>
         interception_count (snd (run clk cs s1)) = interception_count s1 + length cs \<and>
         ids_in_order (snd (run clk cs s1)) \<and> stats_safe (snd (run clk cs s1))"
    by (rule Cons.IH [OF inv])
  have "result_ids (fst (run clk (c # cs) s)) =
          trace_id_fmt (Suc (interception_count s)) # result_ids (fst (run clk cs s1))"
    by (simp add: step split_def result_ids_def id Let_def)
  moreover have "snd (run clk (c # cs) s) = snd (run clk cs s1)"
    by (simp add: step split_def Let_def)
  moreover have "[Suc (interception_count s)..<Suc (interception_count s + length (c # cs))] =
      Suc (interception_count s) # [Suc (interception_count s1)..<Suc (interception_count s1 + length cs)]"
  proof -
    have "Suc (interception_count s) < Suc (interception_count s + length (c # cs))"
      by simp
    then have "[Suc (interception_count s)..<Suc (interception_count s + length (c # cs))] =
        Suc (interception_count s) #
        [Suc (Suc (interception_count s))..<Suc (interception_count s + length (c # cs))]"
      by (rule upt_conv_Cons)
    moreover have "Suc (interception_count s + length (c # cs)) =
        Suc (Suc (interception_count s) + length cs)"
      by simp
    ultimately show ?thesis
      by (simp only: cnt)
  qed
  ultimately show ?case
    using ih cnt by (simp del: upt_Suc)
qed

lemma fmt_first_three:
  "map trace_id_fmt [1, 2, 3] = [''TRACE-0001'', ''TRACE-0002'', ''TRACE-0003'']"
  by code_simp

lemma sorted_seq_nos: "sorted_wrt (<) (map trace_seq_no (map trace_id_fmt [a..<b]))"
  by (simp add: comp_def trace_seq_no_fmt)

lemma distinct_fmt: "distinct (map trace_id_fmt [a..<b])"
  by (simp add: distinct_map inj_on_def) (metis trace_id_fmt_inj)

text \<open>
  C7. \<open>N\<close> sequential calls of \<open>process_with_trace\<close> on a fresh interceptor all
  return, and their trace ids are \<open>TRACE-\<close> followed by the numbers 1 to \<open>N\<close>, padded
  with zeros to four digits: pairwise distinct, with strictly increasing sequence
  numbers. Afterwards \<open>get_statistics\<close> returns \<open>total_interceptions = N\<close>. Three calls
  give \<open>TRACE-0001\<close>, \<open>TRACE-0002\<close>, \<open>TRACE-0003\<close>.
\<close>

theorem trace_ids_increasing_and_counted:
  "result_ids (fst (run clk cs init)) = map trace_id_fmt [1..<Suc (length cs)] \<and>
   distinct (result_ids (fst (run clk cs init))) \<and>
   sorted_wrt (<) (map trace_seq_no (result_ids (fst (run clk cs init)))) \<and>
   (\<exists>st. get_statistics (snd (run clk cs init)) = Inr st \<and> total_interceptions st = length cs) \<and>
   result_ids (fst (run clk [c1, c2, c3] init)) = [''TRACE-0001'', ''TRACE-0002'', ''TRACE-0003'']"
proof -
  have safe: "stats_safe init" by (simp add: stats_safe_def init_def)
  have r: "result_ids (fst (run clk xs init)) = map trace_id_fmt [1..<Suc (length xs)] \<and>
         interception_count (snd (run clk xs init)) = length xs \<and>
         stats_safe (snd (run clk xs init))" for xs
    using run_ids [OF ids_in_order_init safe, of clk xs] by (simp add: init_def)
  have "\<exists>st. get_statistics (snd (run clk cs init)) = Inr st \<and> total_interceptions st = length cs"
    using get_statistics_safe [of "snd (run clk cs init)"] r [of cs] by auto
  moreover have "result_ids (fst (run clk [c1, c2, c3] init)) =
      [''TRACE-0001'', ''TRACE-0002'', ''TRACE-0003'']"
  proof -
    have "[1..<Suc (length [c1, c2, c3])] = [1, 2, 3]"
      by (simp add: upt_rec)
    then have "result_ids (fst (run clk [c1, c2, c3] init)) = map trace_id_fmt [1, 2, 3]"
      using r [of "[c1, c2, c3]"] by (simp only:)
    then show ?thesis by (simp only: fmt_first_three)
  qed
  ultimately show ?thesis
    using r [of cs] sorted_seq_nos [of 1 "Suc (length cs)"] distinct_fmt [of 1 "Suc (length cs)"]
    by simp
qed

lemma get_statistics_after_run:
  "\<exists>st. get_statistics (snd (run clk cs init)) = Inr st \<and> stat_total_redactions st = 0"
proof -
  have "stats_safe init" by (simp add: stats_safe_def init_def)
  then have "stats_safe (snd (run clk cs init))"
    using run_ids [OF ids_in_order_init, of clk cs] by simp
  from get_statistics_safe [OF this] show ?thesis
    by (elim exE conjE) (intro exI conjI)
qed

text \<open>
  C1. \<open>get_statistics\<close> sums the key \<open>redactions\<close> of the \<open>PHANTOM_REDACT\<close> events, but
  \<open>process_with_trace\<close> records the count under \<open>redactions_made\<close>: after one call on
  \<open>a@b.co\<close>, which makes one redaction, the statistics count one interception and one
  completed trace and report \<open>total_redactions = 0\<close>.
\<close>

theorem get_statistics_misses_redactions:
  "map_sum id redaction_count (redact_document ''a@b.co'') = Inr 1 \<and>
   map_sum id (\<lambda>st. (total_interceptions st, stat_total_redactions st, traces_completed st))
     (get_statistics (snd (process_with_trace real ''a@b.co'' init))) = Inr (1, 0, 1)"
  by code_simp

lemma intercept_outcome:
  "fst (intercept clk func args kwargs s) =
     (let content = (case args of a # _ \<Rightarrow> a | [] \<Rightarrow> dict_get kwargs ''content'' []);
          safe_content = fst (redact_text content True)
      in case (case args of
                 _ # rest \<Rightarrow> func (safe_content # rest) kwargs
               | [] \<Rightarrow> func [] (AList.update ''content'' safe_content kwargs)) of
           Inl e \<Rightarrow> FuncRaised e
         | Inr r \<Rightarrow> Returned r)"
proof -
  obtain rr where rr: "redact_document (case args of a # _ \<Rightarrow> a | [] \<Rightarrow> dict_get kwargs ''content'' []) = Inr rr"
    and red: "rr_redacted rr = fst (redact_text (case args of a # _ \<Rightarrow> a | [] \<Rightarrow> dict_get kwargs ''content'' []) True)"
    using redact_document_ok [of "case args of a # _ \<Rightarrow> a | [] \<Rightarrow> dict_get kwargs ''content'' []"]
    by (elim exE conjE)
  show ?thesis
    using rr red
    by (cases args) (auto simp: intercept_def Let_def split_def split: sum.splits)
qed

lemma intercept_completes:
  assumes fresh: "\<forall>t \<in> set ts. trace_id t \<noteq> trace_id_fmt (Suc c)"
    and ret: "fst (intercept clk func args kwargs
                \<lparr>trace_log = ts, interception_count = c, clock_reads = k\<rparr>) = Returned r"
  shows "\<exists>evs. snd (intercept clk func args kwargs
                \<lparr>trace_log = ts, interception_count = c, clock_reads = k\<rparr>) =
        \<lparr>trace_log = ts @ [\<lparr>trace_id = trace_id_fmt (Suc c), start_time = clk k,
                             events = evs, status = ''completed'',
                             end_time = Some (clk (k + 9)),
                             duration = Some (clk (k + 9) - clk k)\<rparr>],
         interception_count = Suc c, clock_reads = k + 10\<rparr> \<and>
        map etype evs =
          [''AGENT_READ'', ''ARCHESTRA_INTERCEPT'', ''PHANTOM_REDACT'', ''SAFE_DATA_DELIVERED'']"
proof -
  obtain rr where rr: "redact_document (case args of a # _ \<Rightarrow> a | [] \<Rightarrow> dict_get kwargs ''content'' []) = Inr rr"
    using redact_document_ok [of "case args of a # _ \<Rightarrow> a | [] \<Rightarrow> dict_get kwargs ''content'' []"]
    by (elim exE conjE)
  show ?thesis
    using ret rr
    by (cases args)
       (auto simp: intercept_def start_trace_run time_time_def Let_def
          log_trace_last [OF fresh] complete_trace_last [OF fresh] eval_nat_numeral
          split: sum.splits)
qed


text \<open>
  C4. The wrapper calls the wrapped function with the redacted content in place of the
  content (the first positional argument, or else the keyword argument \<open>content\<close>), so
  what the function returns depends on the content only through its redacted form, and
  the wrapper returns what the function returns. When it returns, in a state between
  calls, the trace of the call is the last of the log and is marked \<open>completed\<close>.
\<close>

theorem intercept_passes_redacted_content:
  "fst (intercept clk func (c # rest) kwargs s) =
     (case func (fst (redact_text c True) # rest) kwargs of
        Inl e \<Rightarrow> FuncRaised e | Inr r \<Rightarrow> Returned r) \<and>
   fst (intercept clk func [] kwargs s) =
     (case func [] (AList.update ''content''
                      (fst (redact_text (dict_get kwargs ''content'' []) True)) kwargs) of
        Inl e \<Rightarrow> FuncRaised e | Inr r \<Rightarrow> Returned r) \<and>
   (fst (redact_text c True) = fst (redact_text c' True) \<longrightarrow>
      fst (intercept clk func (c # rest) kwargs s) =
      fst (intercept clk func (c' # rest) kwargs s')) \<and>
   (ids_in_order s \<longrightarrow>
      (\<forall>r. fst (intercept clk func args kwargs s) = Returned r \<longrightarrow>
         (\<exists>t. trace_log (snd (intercept clk func args kwargs s)) = trace_log s @ [t] \<and>
              trace_id t = trace_id_fmt (Suc (interception_count s)) \<and>
              status t = ''completed'')))"
proof -
  have a: "fst (intercept clk func (x # rest) kwargs st) =
     (case func (fst (redact_text x True) # rest) kwargs of
        Inl e \<Rightarrow> FuncRaised e | Inr r \<Rightarrow> Returned r)" for x st
    by (simp add: intercept_outcome)
  have b: "fst (intercept clk func [] kwargs s) =
     (case func [] (AList.update ''content''
                      (fst (redact_text (dict_get kwargs ''content'' []) True)) kwargs) of
        Inl e \<Rightarrow> FuncRaised e | Inr r \<Rightarrow> Returned r)"
    by (simp add: intercept_outcome)
  have c: "\<exists>t. trace_log (snd (intercept clk func args kwargs s)) = trace_log s @ [t] \<and>
              trace_id t = trace_id_fmt (Suc (interception_count s)) \<and>
              status t = ''completed''"
    if ord: "ids_in_order s" and ret: "fst (intercept clk func args kwargs s) = Returned r" for r
  proof -
    obtain ts n k where s: "s = \<lparr>trace_log = ts, interception_count = n, clock_reads = k\<rparr>"
      by (cases s) simp
    have fresh: "\<forall>t \<in> set ts. trace_id t \<noteq> trace_id_fmt (Suc n)"
      using ids_in_order_fresh [OF ord] by (simp add: s)
    from intercept_completes [OF fresh, of clk func args kwargs k r] ret
    show ?thesis by (auto simp: s)
  qed
  from a [of c s] a [of c' s'] b c show ?thesis
    by (intro conjI impI allI) simp_all
qed

lemma redact_email_b: "fst (redact_text ''a@b.co'' True) = ''a@****''"
  by code_simp

lemma redact_email_c: "fst (redact_text ''a@c.co'' True) = ''a@****''"
  by code_simp

lemma fmt_one: "trace_id_fmt (Suc 0) = ''TRACE-0001''"
  by code_simp

theorem intercept_passes_redacted_content_witness:
  "ids_in_order init \<and>
   fst (redact_text ''a@b.co'' True) = fst (redact_text ''a@c.co'' True) \<and>
   fst (intercept real (\<lambda>args kw. Inr (hd args) :: unit + string) [''a@b.co''] [] init) =
     Returned ''a@****'' \<and>
   fst (intercept real (\<lambda>args kw. Inr (hd args) :: unit + string) [''a@c.co''] [] init) =
     Returned ''a@****'' \<and>
   (\<exists>t. trace_log (snd (intercept real (\<lambda>args kw. Inr (hd args) :: unit + string)
                          [''a@b.co''] [] init)) = trace_log init @ [t] \<and>
        trace_id t = ''TRACE-0001'' \<and> status t = ''completed'')"
  using intercept_passes_redacted_content
    [where clk = real and func = "\<lambda>args kw. Inr (hd args) :: unit + string"
       and c = "''a@b.co''" and c' = "''a@c.co''" and rest = "[]" and kwargs = "[]"
       and s = init and s' = init and args = "[''a@b.co'']"]
    ids_in_order_init
  by (auto simp add: redact_email_b redact_email_c fmt_one init_def)

end
